theory Spec2Isabelle
  imports Complex_Main "HOL-Library.Code_Target_Nat"
begin

section \<open>Python values and strings\<close>

text \<open>
  A Python \<open>str\<close> is a sequence of Unicode code points, so a string is a list of
  natural numbers and \<open>length\<close> counts what \<open>len\<close> counts. \<open>py\<close> turns an ASCII
  literal into such a string.
\<close>

type_synonym pystr = "nat list"

definition py :: "string \<Rightarrow> pystr" where
  "py s = map of_char s"

text \<open>
  The values a field of a product record holds: \<open>None\<close>, the float \<open>nan\<close> that pandas
  uses for a missing cell, an integer, a string or a list of strings.
\<close>

datatype pyval = PNone | PNaN | PInt int | PStr pystr | PList "pystr list"

text \<open>\<open>str.isspace\<close> of one character; the same table decides \<open>\s\<close> and \<open>str.strip()\<close>.\<close>

definition is_space :: "nat \<Rightarrow> bool" where
  "is_space c = ((9 \<le> c \<and> c \<le> 13) \<or> (28 \<le> c \<and> c \<le> 32) \<or> c = 133 \<or> c = 160 \<or> c = 5760
     \<or> (8192 \<le> c \<and> c \<le> 8202) \<or> c = 8232 \<or> c = 8233 \<or> c = 8239 \<or> c = 8287 \<or> c = 12288)"

text \<open>The class \<open>[a-zA-Z0-9]\<close>.\<close>

definition is_alnum :: "nat \<Rightarrow> bool" where
  "is_alnum c = ((48 \<le> c \<and> c \<le> 57) \<or> (65 \<le> c \<and> c \<le> 90) \<or> (97 \<le> c \<and> c \<le> 122))"

definition is_digit :: "nat \<Rightarrow> bool" where
  "is_digit c = (48 \<le> c \<and> c \<le> 57)"

definition strip :: "pystr \<Rightarrow> pystr" where
  "strip s = rev (dropWhile is_space (rev (dropWhile is_space s)))"

text \<open>\<open>s.split(',')\<close> with an explicit separator character: never an empty result.\<close>

fun split_on :: "nat \<Rightarrow> pystr \<Rightarrow> pystr list" where
  "split_on c [] = [[]]"
| "split_on c (x # xs) =
     (if x = c then [] # split_on c xs
      else (case split_on c xs of [] \<Rightarrow> [[x]] | w # ws \<Rightarrow> (x # w) # ws))"

text \<open>\<open>sep.join(xs)\<close>.\<close>

fun join :: "pystr \<Rightarrow> pystr list \<Rightarrow> pystr" where
  "join sep [] = []"
| "join sep [x] = x"
| "join sep (x # y # ys) = x @ sep @ join sep (y # ys)"

section \<open>The regular expressions of the scripts\<close>

text \<open>
  The scripts clean text with Python's \<open>re\<close> module, a backtracking matcher. A pattern
  is a syntax tree; \<open>m r s st\<close> lists, in the order in which backtracking tries them,
  the states in which a match of \<open>r\<close> started in state \<open>st\<close> can end. A state is the
  position in \<open>s\<close> and the span of capture group 1. \<open>Star True\<close> is the greedy \<open>*\<close>,
  \<open>Star False\<close> the lazy \<open>*?\<close>. \<open>Bnd w\<close> is \<open>\b\<close> for the word characters \<open>w\<close>.
\<close>

datatype rx =
    Cls "nat \<Rightarrow> bool"
  | Eps
  | Seq rx rx
  | Alt rx rx
  | Star bool rx
  | Grp rx
  | Bol
  | Eol
  | Bnd "nat \<Rightarrow> bool"

type_synonym mstate = "nat \<times> (nat \<times> nat) option"

text \<open>
  One more round of a repetition is tried only where the body has consumed a character,
  so a repetition makes at most as many rounds as characters remain: that is the
  counter \<open>n\<close>.
\<close>

fun star_iter :: "bool \<Rightarrow> (mstate \<Rightarrow> mstate list) \<Rightarrow> nat \<Rightarrow> mstate \<Rightarrow> mstate list" where
  "star_iter gr step 0 st = [st]"
| "star_iter gr step (Suc n) st =
     (let more = concat (map (star_iter gr step n) (filter (\<lambda>st'. fst st < fst st') (step st)))
      in if gr then more @ [st] else st # more)"

primrec m :: "rx \<Rightarrow> pystr \<Rightarrow> mstate \<Rightarrow> mstate list" where
  "m (Cls P) s st =
     (if fst st < length s \<and> P (s ! fst st) then [(Suc (fst st), snd st)] else [])"
| "m Eps s st = [st]"
| "m (Seq a b) s st = concat (map (m b s) (m a s st))"
| "m (Alt a b) s st = m a s st @ m b s st"
| "m (Star gr a) s st = star_iter gr (m a s) (length s - fst st) st"
| "m (Grp a) s st = map (\<lambda>st'. (fst st', Some (fst st, fst st'))) (m a s st)"
| "m Bol s st = (if fst st = 0 then [st] else [])"
| "m Eol s st =
     (if fst st = length s \<or> (Suc (fst st) = length s \<and> s ! fst st = 10) then [st] else [])"
| "m (Bnd w) s st =
     (let i = fst st;
          wl = (0 < i \<and> i \<le> length s \<and> w (s ! (i - 1)));
          wr = (i < length s \<and> w (s ! i))
      in if wl \<noteq> wr then [st] else [])"

text \<open>
  The first match that starts at position \<open>k\<close>. After an empty match \<open>re.sub\<close> searches
  again from the same position and refuses a second empty match there (\<open>adv\<close>).
\<close>

definition match_at :: "rx \<Rightarrow> pystr \<Rightarrow> nat \<Rightarrow> bool \<Rightarrow> mstate option" where
  "match_at r s k adv = List.find (\<lambda>st. \<not> adv \<or> k < fst st) (m r s (k, None))"

fun scan :: "rx \<Rightarrow> pystr \<Rightarrow> bool \<Rightarrow> nat list \<Rightarrow> (nat \<times> mstate) option" where
  "scan r s adv [] = None"
| "scan r s adv (k # ks) =
     (case match_at r s k adv of Some st \<Rightarrow> Some (k, st) | None \<Rightarrow> scan r s False ks)"

definition find_match :: "rx \<Rightarrow> pystr \<Rightarrow> nat \<Rightarrow> bool \<Rightarrow> (nat \<times> mstate) option" where
  "find_match r s pos adv = scan r s adv [pos..<Suc (length s)]"

text \<open>\<open>re.search(r, s)\<close>: the leftmost start position that has a match.\<close>

definition re_search :: "rx \<Rightarrow> pystr \<Rightarrow> (nat \<times> mstate) option" where
  "re_search r s = find_match r s 0 False"

text \<open>
  \<open>match.group(1)\<close>. Every pattern below has its group outside any alternative, so a
  match always sets it.
\<close>

definition group1 :: "pystr \<Rightarrow> mstate \<Rightarrow> pystr" where
  "group1 s st = (case snd st of Some (a, b) \<Rightarrow> take (b - a) (drop a s) | None \<Rightarrow> [])"

lemma star_iter_bounds:
  assumes "\<And>x x'. fst x \<le> length s \<Longrightarrow> x' \<in> set (step x) \<Longrightarrow> fst x' \<le> length s"
  shows "st' \<in> set (star_iter gr step n st) \<Longrightarrow> fst st \<le> length s \<Longrightarrow>
           fst st \<le> fst st' \<and> fst st' \<le> length s"
proof (induction n arbitrary: st)
  case 0
  then show ?case by simp
next
  case (Suc n)
  show ?case
  proof (cases "st' = st")
    case True
    with Suc.prems show ?thesis by simp
  next
    case False
    with Suc.prems obtain x where x: "x \<in> set (step st)" "fst st < fst x"
      and in_x: "st' \<in> set (star_iter gr step n x)"
      by (auto simp: Let_def split: if_splits)
    from assms [OF Suc.prems(2) x(1)] have "fst x \<le> length s" .
    from Suc.IH [OF in_x this] x(2) show ?thesis by auto
  qed
qed

lemma m_bounds:
  "st' \<in> set (m r s st) \<Longrightarrow> fst st \<le> length s \<Longrightarrow> fst st \<le> fst st' \<and> fst st' \<le> length s"
proof (induction r arbitrary: st st')
  case (Star gr a)
  have "\<And>x x'. fst x \<le> length s \<Longrightarrow> x' \<in> set (m a s x) \<Longrightarrow> fst x' \<le> length s"
    using Star.IH by blast
  from star_iter_bounds [of s "m a s", OF this] Star.prems show ?case
    by simp
qed (fastforce split: if_splits simp: Let_def)+

lemma match_at_bounds:
  assumes "match_at r s k adv = Some st" "k \<le> length s"
  shows "k \<le> fst st \<and> fst st \<le> length s \<and> (adv \<longrightarrow> k < fst st)"
proof -
  from assms(1) have "st \<in> set (m r s (k, None))" "\<not> adv \<or> k < fst st"
    by (auto simp: match_at_def find_Some_iff)
  with m_bounds [of st r s "(k, None)"] assms(2) show ?thesis by auto
qed

lemma scan_Some:
  "scan r s adv ks = Some (k, st) \<Longrightarrow> distinct ks \<Longrightarrow>
     k \<in> set ks \<and> match_at r s k (adv \<and> k = hd ks) = Some st"
proof (induction ks arbitrary: adv)
  case Nil
  then show ?case by simp
next
  case (Cons x xs)
  show ?case
  proof (cases "match_at r s x adv")
    case None
    with Cons.prems have "scan r s False xs = Some (k, st)" by simp
    from Cons.IH [OF this] Cons.prems(2)
    have "k \<in> set xs" "match_at r s k False = Some st" by simp_all
    moreover from this Cons.prems(2) have "k \<noteq> x" by auto
    ultimately show ?thesis by simp
  next
    case (Some y)
    with Cons.prems show ?thesis by auto
  qed
qed

lemma find_match_bounds:
  assumes "find_match r s pos adv = Some (k, st)"
  shows "pos \<le> k \<and> k \<le> fst st \<and> fst st \<le> length s \<and> (adv \<and> k = pos \<longrightarrow> k < fst st)"
proof -
  from scan_Some [OF assms [unfolded find_match_def] distinct_upt]
  have k: "k \<in> set [pos..<Suc (length s)]"
    and ma: "match_at r s k (adv \<and> k = hd [pos..<Suc (length s)]) = Some st"
    by blast+
  from k have kb: "pos \<le> k" "k \<le> length s" by auto
  then have "hd [pos..<Suc (length s)] = pos" by (simp add: upt_conv_Cons del: upt_Suc)
  with match_at_bounds [OF ma kb(2)] kb show ?thesis by auto
qed

text \<open>
  \<open>re.sub(r, repl, s)\<close> with a constant replacement: the text before each match is
  copied, the match is replaced, and the search goes on where the match ended.
\<close>

function sub_from :: "rx \<Rightarrow> pystr \<Rightarrow> pystr \<Rightarrow> nat \<Rightarrow> bool \<Rightarrow> pystr" where
  "sub_from r repl s pos adv =
     (case find_match r s pos adv of
        None \<Rightarrow> drop pos s
      | Some (k, st) \<Rightarrow>
          take (k - pos) (drop pos s) @ repl @ sub_from r repl s (fst st) (fst st = k))"
  by pat_completeness auto
termination
proof (relation "measure (\<lambda>(r, repl, s, pos, adv). 2 * (Suc (length s) - pos) + (if adv then 0 else 1))")
  show "wf (measure (\<lambda>(r, repl, s, pos, adv). 2 * (Suc (length s) - pos) + (if adv then 0 else 1)))"
    by simp
next
  fix r repl :: "rx" and rp s :: pystr and pos :: nat and adv :: bool and x2 :: "nat \<times> mstate" and k :: nat and st :: mstate
  assume "find_match r s pos adv = Some x2" "(k, st) = x2"
  then have "find_match r s pos adv = Some (k, st)" by simp
  from find_match_bounds [OF this]
  show "((r, rp, s, fst st, fst st = k), r, rp, s, pos, adv)
      \<in> measure (\<lambda>(r, repl, s, pos, adv). 2 * (Suc (length s) - pos) + (if adv then 0 else 1))"
    by (auto split: if_splits)
qed

declare sub_from.simps [simp del]

definition re_sub :: "rx \<Rightarrow> pystr \<Rightarrow> pystr \<Rightarrow> pystr" where
  "re_sub r repl s = sub_from r repl s 0 False"


subsection \<open>Pattern syntax\<close>

definition ch :: "nat \<Rightarrow> rx" where
  "ch c = Cls (\<lambda>x. x = c)"

text \<open>
  A literal character under \<open>re.IGNORECASE\<close>: the other case of an ASCII letter, and the
  characters Python folds onto it (dotted and dotless i, long s, the Kelvin sign, capital
  e-acute).
\<close>

definition ci :: "nat \<Rightarrow> nat \<Rightarrow> bool" where
  "ci p c = (c = p \<or> (97 \<le> p \<and> p \<le> 122 \<and> c + 32 = p) \<or> (65 \<le> p \<and> p \<le> 90 \<and> c = p + 32)
     \<or> ((p = 105 \<or> p = 73) \<and> (c = 304 \<or> c = 305))
     \<or> ((p = 115 \<or> p = 83) \<and> c = 383)
     \<or> ((p = 107 \<or> p = 75) \<and> c = 8490)
     \<or> (p = 233 \<and> c = 201))"

definition seqs :: "rx list \<Rightarrow> rx" where
  "seqs rs = foldr Seq rs Eps"

fun alts :: "rx list \<Rightarrow> rx" where
  "alts [] = Eps"
| "alts [r] = r"
| "alts (r # rs) = Alt r (alts rs)"


definition lit_ci :: "pystr \<Rightarrow> rx" where
  "lit_ci w = seqs (map (\<lambda>p. Cls (ci p)) w)"

definition plus :: "rx \<Rightarrow> rx" where
  "plus r = Seq r (Star True r)"

definition plus_lazy :: "rx \<Rightarrow> rx" where
  "plus_lazy r = Seq r (Star False r)"

definition opt :: "rx \<Rightarrow> rx" where
  "opt r = Alt r Eps"

definition dot_all :: rx where
  "dot_all = Cls (\<lambda>c. True)"

definition spaces :: rx where
  "spaces = Star True (Cls is_space)"

definition spaces1 :: rx where
  "spaces1 = plus (Cls is_space)"

text \<open>\<open>\w\<close>: Python's table of alphanumeric characters \<open>u\<close> (\<open>str.isalnum\<close>) and the underscore.\<close>

definition word_char :: "(nat \<Rightarrow> bool) \<Rightarrow> nat \<Rightarrow> bool" where
  "word_char u c = (u c \<or> c = 95)"

subsection \<open>The patterns of the cleanup scripts\<close>

text \<open>
  \<^verbatim>\<open>(?:INGREDIENTS|ACTIVE|Active).*?((?:AQUA|WATER)[\s/]+(?:WATER|EAU|AQUA)[^<>]*(?:,|\s+\<bullet>\s+)[^<>]*)\<close>
  where the bullet is U+2022, with \<open>re.IGNORECASE | re.DOTALL\<close>.
\<close>

definition not_angle :: rx where
  "not_angle = Cls (\<lambda>c. c \<noteq> 60 \<and> c \<noteq> 62)"

definition pattern1 :: rx where
  "pattern1 = seqs
     [alts [lit_ci (py ''INGREDIENTS''), lit_ci (py ''ACTIVE''), lit_ci (py ''Active'')],
      Star False dot_all,
      Grp (seqs
        [alts [lit_ci (py ''AQUA''), lit_ci (py ''WATER'')],
         plus (Cls (\<lambda>c. is_space c \<or> c = 47)),
         alts [lit_ci (py ''WATER''), lit_ci (py ''EAU''), lit_ci (py ''AQUA'')],
         Star True not_angle,
         alts [ch 44, seqs [spaces1, ch 8226, spaces1]],
         Star True not_angle])]"

text \<open>\<^verbatim>\<open>(?:[0-9]{5,})\s*[- ]\s*(.+?)(?:read more|$|\(FIL|\(F\.I\.L)\<close>\<close>

definition pattern2 :: rx where
  "pattern2 = seqs
     [Cls is_digit, Cls is_digit, Cls is_digit, Cls is_digit, Cls is_digit, Star True (Cls is_digit),
      spaces, Cls (\<lambda>c. c = 45 \<or> c = 32), spaces,
      Grp (plus_lazy dot_all),
      alts [lit_ci (py ''read more''), Eol, lit_ci (py ''(FIL''), lit_ci (py ''(F.I.L'')]]"

text \<open>\<^verbatim>\<open>Active\s*(?:\w+\s*)+\s*(?:-\s*)?(.+?)(?:\(FIL|\(F\.I\.L)\<close>\<close>

definition pattern3 :: "(nat \<Rightarrow> bool) \<Rightarrow> rx" where
  "pattern3 u = seqs
     [lit_ci (py ''Active''), spaces,
      plus (seqs [plus (Cls (word_char u)), spaces]),
      spaces, opt (seqs [ch 45, spaces]),
      Grp (plus_lazy dot_all),
      alts [lit_ci (py ''(FIL''), lit_ci (py ''(F.I.L'')]]"

text \<open>\<^verbatim>\<open>Ingredients[:\s]+(.+?)(?:How to use|Hazards|$)\<close>, only in final_fix_ingredients.py.\<close>

definition pattern4 :: rx where
  "pattern4 = seqs
     [lit_ci (py ''Ingredients''), plus (Cls (\<lambda>c. c = 58 \<or> is_space c)),
      Grp (plus_lazy dot_all),
      alts [lit_ci (py ''How to use''), lit_ci (py ''Hazards''), Eol]]"

text \<open>\<^verbatim>\<open><[^>]+>\<close>\<close>

definition rx_html_tag :: rx where
  "rx_html_tag = seqs [ch 60, plus (Cls (\<lambda>c. c \<noteq> 62)), ch 62]"

text \<open>\<^verbatim>\<open>\s+\<close>\<close>

definition rx_whitespace :: rx where
  "rx_whitespace = spaces1"

text \<open>
  \<^verbatim>\<open>ingredients:|\bingredients:|\bingredients\b|:|\*|\+|\.|\bINGREDIENTS\b\<close> with
  \<open>re.IGNORECASE\<close>, where the second alternative is the French spelling, its first e
  with an acute accent (U+00E9); the scraper uses the same pattern without its last
  alternative.
\<close>

definition ingredients_fr :: pystr where
  "ingredients_fr = py ''ingr'' @ [233] @ py ''dients:''"

definition rx_noise_scraper :: "(nat \<Rightarrow> bool) \<Rightarrow> rx list" where
  "rx_noise_scraper u =
     [lit_ci (py ''ingredients:''),
      seqs [Bnd (word_char u), lit_ci ingredients_fr],
      seqs [Bnd (word_char u), lit_ci (py ''ingredients''), Bnd (word_char u)],
      ch 58, ch 42, ch 43, ch 46]"

definition rx_noise :: "(nat \<Rightarrow> bool) \<Rightarrow> rx" where
  "rx_noise u = alts (rx_noise_scraper u @
     [seqs [Bnd (word_char u), lit_ci (py ''INGREDIENTS''), Bnd (word_char u)]])"

text \<open>\<^verbatim>\<open>\s+\<bullet>\s+\<close> and \<^verbatim>\<open>\s*\|\s*\<close>\<close>

definition rx_bullet :: rx where
  "rx_bullet = seqs [spaces1, ch 8226, spaces1]"

definition rx_pipe :: rx where
  "rx_pipe = seqs [spaces, ch 124, spaces]"

text \<open>\<^verbatim>\<open>^[^a-zA-Z0-9]+\<close> and \<^verbatim>\<open>[^a-zA-Z0-9]+$\<close>\<close>

definition rx_leading :: rx where
  "rx_leading = Seq Bol (plus (Cls (\<lambda>c. \<not> is_alnum c)))"

definition rx_trailing :: rx where
  "rx_trailing = Seq (plus (Cls (\<lambda>c. \<not> is_alnum c))) Eol"

section \<open>The cleanup scripts\<close>

text \<open>
  The loop over the patterns: the first pattern that matches anywhere replaces the text by
  its stripped group 1.
\<close>

fun first_group :: "rx list \<Rightarrow> pystr \<Rightarrow> pystr option" where
  "first_group [] s = None"
| "first_group (p # ps) s =
     (case re_search p s of
        Some (k, st) \<Rightarrow> Some (strip (group1 s st))
      | None \<Rightarrow> first_group ps s)"

text \<open>The three substitutions that follow, shared by all the cleanup scripts.\<close>

definition scrub :: "(nat \<Rightarrow> bool) \<Rightarrow> pystr \<Rightarrow> pystr" where
  "scrub u t = re_sub (rx_noise u) [] (re_sub rx_whitespace (py '' '') (re_sub rx_html_tag [] t))"

text \<open>\<open>clean_ingredients_text\<close> of batch_fix_ingredients.py and fix_ingredients_list.py.\<close>

definition clean_ingredients_text :: "(nat \<Rightarrow> bool) \<Rightarrow> pyval \<Rightarrow> pystr" where
  "clean_ingredients_text u v =
     (case v of
        PStr s \<Rightarrow>
          (let t = (case first_group [pattern1, pattern2, pattern3 u] s of
                      Some g \<Rightarrow> g | None \<Rightarrow> s)
           in strip (scrub u t))
      | _ \<Rightarrow> [])"

text \<open>The body of the loop over the comma-separated items.\<close>

definition clean_item :: "pystr \<Rightarrow> pystr" where
  "clean_item item = re_sub rx_trailing [] (re_sub rx_leading [] (strip item))"

definition split_items :: "pystr \<Rightarrow> pystr list" where
  "split_items t = filter (\<lambda>i. i \<noteq> [] \<and> 1 < length i) (map clean_item (split_on 44 t))"

definition normalize_separators :: "pystr \<Rightarrow> pystr" where
  "normalize_separators t = re_sub rx_pipe (py '', '') (re_sub rx_bullet (py '', '') t)"

text \<open>\<open>extract_ingredients_list\<close> of batch_fix_ingredients.py and fix_ingredients_list.py.\<close>

definition extract_ingredients_list :: "pystr \<Rightarrow> pystr list" where
  "extract_ingredients_list t = (if t = [] then [] else split_items (normalize_separators t))"

text \<open>\<open>extract_and_clean_ingredients\<close> of final_fix_ingredients.py.\<close>

definition extract_and_clean_ingredients :: "(nat \<Rightarrow> bool) \<Rightarrow> pyval \<Rightarrow> pystr \<times> pystr list" where
  "extract_and_clean_ingredients u v =
     (case v of
        PStr s \<Rightarrow>
          if strip s = [] then ([], [])
          else
            (let t = (case first_group [pattern1, pattern2, pattern3 u, pattern4] s of
                        Some g \<Rightarrow> g | None \<Rightarrow> s);
                 cleaned = scrub u t
             in (cleaned, split_items (normalize_separators cleaned)))
      | _ \<Rightarrow> ([], []))"


subsection \<open>Records\<close>

text \<open>
  A product record is a dictionary from field names to values; a row of a data frame is
  one too (\<open>row.to_dict()\<close>), a missing cell holding \<open>nan\<close>.
\<close>

type_synonym pydict = "string \<rightharpoonup> pyval"

text \<open>\<open>d.get(k)\<close>\<close>

definition dict_get :: "pydict \<Rightarrow> string \<Rightarrow> pyval" where
  "dict_get d k = (case d k of Some v \<Rightarrow> v | None \<Rightarrow> PNone)"

text \<open>The three assignments every cleanup script makes once it has found a list.\<close>

definition set_ingredients :: "pydict \<Rightarrow> pystr \<Rightarrow> pystr list \<Rightarrow> pydict" where
  "set_ingredients d cleaned l =
     d(''ingredients'' \<mapsto> PStr cleaned,
       ''ingredients_count'' \<mapsto> PInt (int (length l)),
       ''ingredients_list'' \<mapsto> PStr (join (py '', '') l))"

text \<open>\<open>not isinstance(x, str) or not x.strip()\<close>\<close>

definition missing_text :: "pyval \<Rightarrow> bool" where
  "missing_text v = (case v of PStr s \<Rightarrow> strip s = [] | _ \<Rightarrow> True)"

subsection \<open>batch_fix_ingredients.py\<close>

text \<open>
  One round of the loop of \<open>process_batch\<close>: the record appended to \<open>results\<close> and the
  increment of \<open>success_count\<close>.
\<close>

definition process_row :: "(nat \<Rightarrow> bool) \<Rightarrow> pydict \<Rightarrow> pydict \<times> nat" where
  "process_row u row =
     (let product_data = row; ingredients_text = dict_get row ''ingredients''
      in if missing_text ingredients_text then (product_data, 0)
         else
           (let cleaned_text = clean_ingredients_text u ingredients_text;
                ingredients_list = extract_ingredients_list cleaned_text
            in if ingredients_list \<noteq> []
               then (set_ingredients product_data cleaned_text ingredients_list, 1)
               else (product_data, 0)))"

fun process_batch_loop ::
  "(nat \<Rightarrow> bool) \<Rightarrow> pydict list \<Rightarrow> pydict list \<times> nat \<Rightarrow> pydict list \<times> nat" where
  "process_batch_loop u [] acc = acc"
| "process_batch_loop u (row # rows) (results, success_count) =
     (case process_row u row of
        (product_data, n) \<Rightarrow> process_batch_loop u rows (results @ [product_data], success_count + n))"

definition process_batch :: "(nat \<Rightarrow> bool) \<Rightarrow> pydict list \<Rightarrow> pydict list \<times> nat" where
  "process_batch u batch_df = process_batch_loop u batch_df ([], 0)"

text \<open>
  The conversion \<open>main\<close> applies to every record before it writes the JSON file: a
  string in \<open>ingredients_list\<close> is split at its commas.
\<close>

definition json_item :: "pydict \<Rightarrow> pydict" where
  "json_item item =
     (case item ''ingredients_list'' of
        Some (PStr l) \<Rightarrow>
          item(''ingredients_list'' \<mapsto> PList (filter (\<lambda>i. i \<noteq> []) (map strip (split_on 44 l))))
      | _ \<Rightarrow> item)"

subsection \<open>cosmetics_scraper.py\<close>

definition MAX_RETRIES :: nat where
  "MAX_RETRIES = 3"

text \<open>What \<open>if x:\<close> tests.\<close>

definition truthy :: "pyval \<Rightarrow> bool" where
  "truthy v = (case v of PNone \<Rightarrow> False | PNaN \<Rightarrow> True | PInt n \<Rightarrow> n \<noteq> 0
                 | PStr s \<Rightarrow> s \<noteq> [] | PList l \<Rightarrow> l \<noteq> [])"


text \<open>
  The scraper's own split of the ingredients text, made where the text is found:
  \<^verbatim>\<open>[ing.strip() for ing in ingredients_text.split(',') if ing.strip()]\<close> after the
  substitution.
\<close>

definition comma_items :: "pystr \<Rightarrow> pystr list" where
  "comma_items t = filter (\<lambda>i. i \<noteq> []) (map strip (split_on 44 t))"

definition count_ingredients :: "(nat \<Rightarrow> bool) \<Rightarrow> pydict \<Rightarrow> pydict" where
  "count_ingredients u product_data =
     (if truthy (dict_get product_data ''ingredients'')
      then (case dict_get product_data ''ingredients'' of
              PStr ingredients_text \<Rightarrow>
                (let ingredients_list =
                       comma_items (re_sub (alts (rx_noise_scraper u)) [] ingredients_text)
                 in product_data(''ingredients_count'' \<mapsto> PInt (int (length ingredients_list)),
                                 ''ingredients_list'' \<mapsto> PList ingredients_list))
            | _ \<Rightarrow> product_data)
      else product_data)"

text \<open>
  The page is what the HTML library answers. An expression either raises or returns;
  \<open>select_one\<close> gives the text of the first element a selector matches, \<open>None\<close> where
  it matches nothing. \<open>found_ingredients\<close> is the result of \<open>extract_ingredients(soup)\<close>,
  \<open>country_sections\<close> lists, for each product-information section, the stripped group of
  the first country pattern that matches in it, and the last three fields are the values
  the three long searches leave in their local variables.
\<close>

datatype 'a res = Raises | Ret 'a

record page =
  select_one :: "string \<Rightarrow> pystr option res"
  found_ingredients :: "pystr option res"
  country_sections :: "pystr option res list res"
  hazards_section :: "pystr option res"
  how_to_use_section :: "pystr option res"
  product_details_section :: "pystr option res"

text \<open>
  A request raises, or gives a status code and a page. A statement of the \<open>try\<close> block
  is a step: it changes the record, and tells whether it finished (\<open>True\<close>) or raised.
\<close>

datatype fetch = Fails | Response nat page

type_synonym step = "pydict \<Rightarrow> bool \<times> pydict"

fun run_steps :: "step list \<Rightarrow> step" where
  "run_steps [] pd = (True, pd)"
| "run_steps (f # fs) pd = (case f pd of (True, pd') \<Rightarrow> run_steps fs pd' | (False, pd') \<Rightarrow> (False, pd'))"

text \<open>\<^verbatim>\<open>elem = soup.select_one(sel); if elem: product_data[k] = elem.text.strip()\<close>\<close>

definition set_if_found :: "string \<Rightarrow> pystr option res \<Rightarrow> step" where
  "set_if_found k r pd =
     (case r of Raises \<Rightarrow> (False, pd) | Ret None \<Rightarrow> (True, pd)
        | Ret (Some t) \<Rightarrow> (True, pd(k \<mapsto> PStr (strip t))))"

text \<open>\<^verbatim>\<open>product_data[k] = value\<close>, the value a string or \<open>None\<close>.\<close>

definition set_always :: "string \<Rightarrow> pystr option res \<Rightarrow> step" where
  "set_always k r pd =
     (case r of Raises \<Rightarrow> (False, pd) | Ret None \<Rightarrow> (True, pd(k \<mapsto> PNone))
        | Ret (Some t) \<Rightarrow> (True, pd(k \<mapsto> PStr t)))"

fun country_loop :: "pystr option res list \<Rightarrow> step" where
  "country_loop [] pd = (True, pd)"
| "country_loop (sec # secs) pd =
     (case sec of
        Raises \<Rightarrow> (False, pd)
      | Ret found \<Rightarrow>
          (let pd' = (case found of Some g \<Rightarrow> pd(''country_of_origin'' \<mapsto> PStr g) | None \<Rightarrow> pd)
           in if truthy (dict_get pd' ''country_of_origin'') then (True, pd')
              else country_loop secs pd'))"

definition set_country :: "pystr option res list res \<Rightarrow> step" where
  "set_country r pd = (case r of Raises \<Rightarrow> (False, pd) | Ret secs \<Rightarrow> country_loop secs pd)"

definition extract_steps :: "(nat \<Rightarrow> bool) \<Rightarrow> page \<Rightarrow> step list" where
  "extract_steps u pg =
     [set_if_found ''product_name'' (select_one pg ''h1.product-details-tile__title''),
      set_if_found ''brand'' (select_one pg ''a.product-details-tile__brand''),
      set_always ''ingredients'' (found_ingredients pg),
      (\<lambda>pd. (True, count_ingredients u pd)),
      set_country (country_sections pg),
      set_always ''hazards_and_cautions'' (hazards_section pg),
      set_always ''how_to_use'' (how_to_use_section pg),
      set_always ''product_details'' (product_details_section pg)]"

definition initial_product :: "pystr \<Rightarrow> pystr \<Rightarrow> pydict" where
  "initial_product url now =
     [''url'' \<mapsto> PStr url,
      ''product_name'' \<mapsto> PNone,
      ''brand'' \<mapsto> PNone,
      ''ingredients'' \<mapsto> PNone,
      ''ingredients_count'' \<mapsto> PNone,
      ''country_of_origin'' \<mapsto> PNone,
      ''hazards_and_cautions'' \<mapsto> PNone,
      ''how_to_use'' \<mapsto> PNone,
      ''product_details'' \<mapsto> PNone,
      ''scrape_timestamp'' \<mapsto> PStr now]"

definition meaningful :: "pydict \<Rightarrow> bool" where
  "meaningful pd = (truthy (dict_get pd ''product_name'') \<or> truthy (dict_get pd ''brand'')
                     \<or> truthy (dict_get pd ''ingredients''))"

text \<open>
  One execution of the body of the \<open>while retries < MAX_RETRIES\<close> loop of
  \<open>scrape_boots_product\<close>: whether it returns the record (\<open>True\<close>) or goes on to
  \<open>retries += 1\<close>, which the rate limit, a bad status, a page without name, brand and
  ingredients and the \<open>except\<close> clause all do.
\<close>

definition scrape_attempt :: "(nat \<Rightarrow> bool) \<Rightarrow> fetch \<Rightarrow> pydict \<Rightarrow> bool \<times> pydict" where
  "scrape_attempt u f product_data =
     (case f of
        Fails \<Rightarrow> (False, product_data)
      | Response status pg \<Rightarrow>
          if status = 429 then (False, product_data)
          else if status \<noteq> 200 then (False, product_data)
          else
            (case run_steps (extract_steps u pg) product_data of
               (False, pd) \<Rightarrow> (False, pd)
             | (True, pd) \<Rightarrow> (meaningful pd, pd)))"

text \<open>
  The loop. \<open>fetches i\<close> is what the request made with \<open>retries = i\<close> meets. The second
  component of the result counts the executions of the loop body.
\<close>

definition tick :: "pydict \<times> nat \<Rightarrow> pydict \<times> nat" where
  "tick r = (fst r, Suc (snd r))"

function scrape_loop :: "(nat \<Rightarrow> bool) \<Rightarrow> (nat \<Rightarrow> fetch) \<Rightarrow> nat \<Rightarrow> pydict \<Rightarrow> pydict \<times> nat" where
  "scrape_loop u fetches retries product_data =
     (if retries < MAX_RETRIES then
        (case scrape_attempt u (fetches retries) product_data of
           (True, pd) \<Rightarrow> (pd, 1)
         | (False, pd) \<Rightarrow> tick (scrape_loop u fetches (retries + 1) pd))
      else (product_data, 0))"
  by pat_completeness auto
termination
  by (relation "measure (\<lambda>(u, fetches, retries, product_data). MAX_RETRIES - retries)") auto

declare scrape_loop.simps [simp del]


definition scrape_attempts :: "(nat \<Rightarrow> bool) \<Rightarrow> pystr \<Rightarrow> pystr \<Rightarrow> (nat \<Rightarrow> fetch) \<Rightarrow> nat" where
  "scrape_attempts u url now fetches = snd (scrape_loop u fetches 0 (initial_product url now))"























text \<open>
  The loop of \<open>main\<close> over the records of a progress file: a record that has an
  ingredients text and no \<open>ingredients_list\<close> key gets the list and the count.
\<close>

definition fixup_progress :: "(nat \<Rightarrow> bool) \<Rightarrow> pydict \<Rightarrow> pydict" where
  "fixup_progress u product =
     (if product ''ingredients'' \<noteq> None \<and> truthy (dict_get product ''ingredients'')
         \<and> product ''ingredients_list'' = None
      then count_ingredients u product else product)"

subsection \<open>final_fix_ingredients.py and fix_ingredients_list.py\<close>

text \<open>
  Both scripts read \<open>row['ingredients']\<close>, which raises \<open>KeyError\<close> where the frame has
  no such column, and write the three fields into the frame at the row's index.
  \<open>process_batch\<close> of final_fix_ingredients.py reads the rows of a copy made before the
  loop, \<open>fix_database\<close> those of the frame it updates.
\<close>

datatype error = KeyError

fun final_loop ::
  "(nat \<Rightarrow> bool) \<Rightarrow> pydict list \<Rightarrow> nat list \<Rightarrow> pydict list \<times> nat \<Rightarrow> error + pydict list \<times> nat" where
  "final_loop u batch_df [] (df, updated_count) = Inr (df, updated_count)"
| "final_loop u batch_df (idx # idxs) (df, updated_count) =
     (case (batch_df ! idx) ''ingredients'' of
        None \<Rightarrow> Inl KeyError
      | Some ingredients_text \<Rightarrow>
          (case extract_and_clean_ingredients u ingredients_text of
             (cleaned_text, ingredients_list) \<Rightarrow>
               if ingredients_list \<noteq> []
               then final_loop u batch_df idxs
                      (df[idx := set_ingredients (df ! idx) cleaned_text ingredients_list],
                       updated_count + 1)
               else final_loop u batch_df idxs (df, updated_count)))"

definition process_batch_final ::
  "(nat \<Rightarrow> bool) \<Rightarrow> pydict list \<Rightarrow> nat \<Rightarrow> nat \<Rightarrow> error + pydict list \<times> nat" where
  "process_batch_final u df start_idx end_idx =
     final_loop u df [start_idx..<min end_idx (length df)] (df, 0)"

fun fix_database_loop ::
  "(nat \<Rightarrow> bool) \<Rightarrow> nat list \<Rightarrow> pydict list \<times> nat \<times> nat \<Rightarrow> error + pydict list \<times> nat \<times> nat" where
  "fix_database_loop u [] acc = Inr acc"
| "fix_database_loop u (idx # idxs) (working_df, updated_count, success_count) =
     (case (working_df ! idx) ''ingredients'' of
        None \<Rightarrow> Inl KeyError
      | Some ingredients_text \<Rightarrow>
          if missing_text ingredients_text
          then fix_database_loop u idxs (working_df, updated_count, success_count)
          else
            (let cleaned_text = clean_ingredients_text u ingredients_text;
                 ingredients_list = extract_ingredients_list cleaned_text
             in if ingredients_list \<noteq> []
                then fix_database_loop u idxs
                       (working_df[idx := set_ingredients (working_df ! idx) cleaned_text ingredients_list],
                        updated_count + 1, success_count + 1)
                else fix_database_loop u idxs (working_df, updated_count + 1, success_count)))"

definition fix_database_rows ::
  "(nat \<Rightarrow> bool) \<Rightarrow> pydict list \<Rightarrow> error + pydict list \<times> nat \<times> nat" where
  "fix_database_rows u working_df = fix_database_loop u [0..<length working_df] (working_df, 0, 0)"

subsection \<open>backup/boots_advanced_scraper.py\<close>

text \<open>
  \<open>navigate_with_retry\<close>. \<open>ok a\<close> tells whether attempt \<open>a\<close> gets through its \<open>try\<close>
  block, \<open>rnd a\<close> is the factor \<open>random.uniform(1, 3)\<close> drawn after it failed. The result
  is the value returned (\<open>True\<close> or \<open>None\<close>), the number of attempts made and the
  back-off sleeps in order.
\<close>

fun nav_loop :: "(nat \<Rightarrow> bool) \<Rightarrow> (nat \<Rightarrow> real) \<Rightarrow> int \<Rightarrow> nat list \<Rightarrow> bool option \<times> nat \<times> real list" where
  "nav_loop ok rnd max_retries [] = (None, 0, [])"
| "nav_loop ok rnd max_retries (attempt # rest) =
     (if ok attempt then (Some True, 1, [])
      else if int attempt < max_retries then
        (case nav_loop ok rnd max_retries rest of
           (r, n, sl) \<Rightarrow> (r, Suc n, (2 ^ attempt * rnd attempt) # sl))
      else (None, 1, []))"

definition navigate_with_retry ::
  "int option \<Rightarrow> int \<Rightarrow> bool \<Rightarrow> (nat \<Rightarrow> bool) \<Rightarrow> (nat \<Rightarrow> real) \<Rightarrow> bool option \<times> nat \<times> real list" where
  "navigate_with_retry max_retries self_max_retries robots_forbid ok rnd =
     (let max_retries = (case max_retries of None \<Rightarrow> self_max_retries | Some n \<Rightarrow> n)
      in if robots_forbid then (None, 0, [])
         else nav_loop ok rnd max_retries [0..<nat (max_retries + 1)])"

section \<open>Properties\<close>

subsection \<open>The batch loop\<close>

lemma process_batch_loop_app:
  "fst (process_batch_loop u rows (results, c)) = results @ map (\<lambda>r. fst (process_row u r)) rows"
proof (induction rows arbitrary: results c)
  case Nil
  then show ?case by simp
next
  case (Cons row rows)
  obtain pd n where pr: "process_row u row = (pd, n)" by (cases "process_row u row")
  show ?case using Cons.IH [of "results @ [pd]" "c + n"] pr by simp
qed

lemma process_batch_rows: "fst (process_batch u rows) = map (\<lambda>r. fst (process_row u r)) rows"
  using process_batch_loop_app [of u rows "[]" 0] by (simp add: process_batch_def)

lemma process_row_frame:
  "k \<noteq> ''ingredients'' \<Longrightarrow> k \<noteq> ''ingredients_count'' \<Longrightarrow> k \<noteq> ''ingredients_list'' \<Longrightarrow>
     fst (process_row u r) k = r k"
  by (simp add: process_row_def set_ingredients_def Let_def)

lemma process_row_unchanged:
  "missing_text (dict_get r ''ingredients'') \<or>
   extract_ingredients_list (clean_ingredients_text u (dict_get r ''ingredients'')) = [] \<Longrightarrow>
     fst (process_row u r) = r"
  by (auto simp: process_row_def Let_def)

text \<open>
  C9: \<open>process_batch\<close> returns one record per input row, in the order of the rows. In
  every record the fields other than \<open>ingredients\<close>, \<open>ingredients_count\<close> and
  \<open>ingredients_list\<close> are those of the row, and the whole record is the row where the
  ingredients text is missing or blank or gives an empty list.
\<close>

theorem process_batch_frame:
  "length (fst (process_batch u rows)) = length rows \<and>
   (\<forall>i<length rows.
      (\<forall>k. k \<noteq> ''ingredients'' \<and> k \<noteq> ''ingredients_count'' \<and> k \<noteq> ''ingredients_list''
            \<longrightarrow> (fst (process_batch u rows) ! i) k = (rows ! i) k) \<and>
      (missing_text (dict_get (rows ! i) ''ingredients'') \<or>
       extract_ingredients_list (clean_ingredients_text u (dict_get (rows ! i) ''ingredients'')) = []
         \<longrightarrow> fst (process_batch u rows) ! i = rows ! i))"
  by (simp add: process_batch_rows process_row_frame process_row_unchanged)

definition sample_rows :: "pydict list" where
  "sample_rows =
     [[''product_name'' \<mapsto> PStr (py ''Cream''), ''ingredients'' \<mapsto> PStr (py ''Aqua, Glycerin'')],
      [''product_name'' \<mapsto> PStr (py ''Soap''), ''ingredients'' \<mapsto> PNaN]]"

theorem process_batch_frame_witness:
  "missing_text (dict_get (sample_rows ! 1) ''ingredients'') \<and>
   fst (process_batch is_alnum sample_rows) ! 1 = sample_rows ! 1 \<and>
   (fst (process_batch is_alnum sample_rows) ! 0) ''product_name'' = Some (PStr (py ''Cream''))"
proof -
  have len: "length sample_rows = 2" by (simp add: sample_rows_def)
  have miss: "missing_text (dict_get (sample_rows ! 1) ''ingredients'')"
    by (simp add: sample_rows_def missing_text_def dict_get_def)
  have all: "\<forall>i<length sample_rows.
      (\<forall>k. k \<noteq> ''ingredients'' \<and> k \<noteq> ''ingredients_count'' \<and> k \<noteq> ''ingredients_list''
            \<longrightarrow> (fst (process_batch is_alnum sample_rows) ! i) k = (sample_rows ! i) k) \<and>
      (missing_text (dict_get (sample_rows ! i) ''ingredients'') \<or>
       extract_ingredients_list (clean_ingredients_text is_alnum (dict_get (sample_rows ! i) ''ingredients'')) = []
         \<longrightarrow> fst (process_batch is_alnum sample_rows) ! i = sample_rows ! i)"
    using process_batch_frame [of is_alnum sample_rows] by blast
  from all len miss have one: "fst (process_batch is_alnum sample_rows) ! 1 = sample_rows ! 1"
    by auto
  from all len have "(fst (process_batch is_alnum sample_rows) ! 0) ''product_name'' = (sample_rows ! 0) ''product_name''"
    by auto
  then have zero: "(fst (process_batch is_alnum sample_rows) ! 0) ''product_name'' = Some (PStr (py ''Cream''))"
    by (simp add: sample_rows_def)
  from miss one zero show ?thesis by blast
qed

subsection \<open>The retry loops\<close>

lemma scrape_loop_count: "snd (scrape_loop u fetches retries pd) \<le> MAX_RETRIES - retries"
proof (induction u fetches retries pd rule: scrape_loop.induct)
  case (1 u fetches retries product_data)
  show ?case
  proof (cases "retries < MAX_RETRIES")
    case False
    then show ?thesis by (simp add: scrape_loop.simps)
  next
    case True
    obtain b pd' where at: "scrape_attempt u (fetches retries) product_data = (b, pd')"
      by (cases "scrape_attempt u (fetches retries) product_data")
    show ?thesis
    proof (cases b)
      case True
      with at \<open>retries < MAX_RETRIES\<close> show ?thesis
        by (simp add: scrape_loop.simps [of u fetches retries])
    next
      case False
      with "1.IH" [OF True at [symmetric]] have "snd (scrape_loop u fetches (retries + 1) pd') \<le> MAX_RETRIES - (retries + 1)"
        by simp
      with at False True show ?thesis
        by (simp add: scrape_loop.simps [of u fetches retries] tick_def)
    qed
  qed
qed

lemma nav_loop_pos: "xs \<noteq> [] \<Longrightarrow> nav_loop ok rnd mr xs = (r, n, sl) \<Longrightarrow> 0 < n"
  by (cases xs) (auto split: if_splits prod.splits)

lemma nav_loop_upt:
  "nav_loop ok rnd mr [a..<nat (mr + 1)] = (r, n, sl) \<Longrightarrow>
     n \<le> nat (mr + 1) - a \<and> sl = map (\<lambda>i. 2 ^ i * rnd i) [a..<a + (n - 1)]"
proof (induction "nat (mr + 1) - a" arbitrary: a r n sl)
  case 0
  then show ?case by simp
next
  case (Suc d)
  then have ab: "a < nat (mr + 1)" and d: "d = nat (mr + 1) - Suc a" by simp_all
  then have upt: "[a..<nat (mr + 1)] = a # [Suc a..<nat (mr + 1)]" by (simp add: upt_conv_Cons)
  show ?case
  proof (cases "ok a \<or> \<not> int a < mr")
    case True
    with Suc.prems upt ab show ?thesis by (auto split: if_splits)
  next
    case False
    obtain r' n' sl' where rec: "nav_loop ok rnd mr [Suc a..<nat (mr + 1)] = (r', n', sl')"
      by (cases "nav_loop ok rnd mr [Suc a..<nat (mr + 1)]") auto
    from Suc.hyps(1) [OF d rec]
    have ih: "n' \<le> nat (mr + 1) - Suc a" "sl' = map (\<lambda>i. 2 ^ i * rnd i) [Suc a..<Suc a + (n' - 1)]"
      by simp_all
    from Suc.prems upt False rec have eq: "n = Suc n'" "sl = (2 ^ a * rnd a) # sl'" by auto
    from False have "[Suc a..<nat (mr + 1)] \<noteq> []" by auto
    from nav_loop_pos [OF this rec] obtain k where k: "n' = Suc k" by (cases n') auto
    have "[a..<a + (n - 1)] = a # [Suc a..<Suc a + (n' - 1)]"
      using eq(1) k by (simp add: upt_conv_Cons del: upt_Suc)
    with ih eq ab show ?thesis by simp
  qed
qed

text \<open>
  C6: the body of the retry loop of \<open>scrape_boots_product\<close> runs at most
  \<open>MAX_RETRIES\<close> = 3 times, whatever the requests meet. \<open>navigate_with_retry\<close> makes
  at most \<open>max_retries + 1\<close> attempts (none for a negative bound), and before each
  attempt but the first it has slept \<open>2 ^ attempt\<close> times the random factor, \<open>attempt\<close>
  numbering the failed attempt.
\<close>

theorem retry_loops_bounded:
  "MAX_RETRIES = 3 \<and> scrape_attempts u url now fetches \<le> MAX_RETRIES \<and>
   (case navigate_with_retry max_retries self_max_retries robots_forbid ok rnd of
      (r, n, sl) \<Rightarrow>
        int n \<le> max 0 ((case max_retries of None \<Rightarrow> self_max_retries | Some k \<Rightarrow> k) + 1) \<and>
        sl = map (\<lambda>attempt. 2 ^ attempt * rnd attempt) [0..<n - 1])"
proof -
  have a: "scrape_attempts u url now fetches \<le> MAX_RETRIES"
    using scrape_loop_count [of u fetches 0] by (simp add: scrape_attempts_def)
  define mr where "mr = (case max_retries of None \<Rightarrow> self_max_retries | Some k \<Rightarrow> k)"
  obtain r n sl where nav: "navigate_with_retry max_retries self_max_retries robots_forbid ok rnd = (r, n, sl)"
    by (cases "navigate_with_retry max_retries self_max_retries robots_forbid ok rnd") auto
  have "int n \<le> max 0 (mr + 1) \<and> sl = map (\<lambda>attempt. 2 ^ attempt * rnd attempt) [0..<n - 1]"
  proof (cases robots_forbid)
    case True
    with nav show ?thesis by (simp add: navigate_with_retry_def)
  next
    case False
    with nav have "nav_loop ok rnd mr [0..<nat (mr + 1)] = (r, n, sl)"
      by (simp add: navigate_with_retry_def mr_def Let_def)
    from nav_loop_upt [OF this] show ?thesis by auto
  qed
  with a nav show ?thesis by (simp add: MAX_RETRIES_def mr_def)
qed


theorem retry_loops_bounded_witness:
  "scrape_attempts is_alnum (py ''u'') (py ''t'') (\<lambda>i. Fails) = 3 \<and>
   scrape_attempts is_alnum (py ''u'') (py ''t'') (\<lambda>i. Fails) \<le> MAX_RETRIES \<and>
   navigate_with_retry (Some 2) 5 False (\<lambda>a. False) (\<lambda>a. 1) = (None, 3, [1, 2])"
proof -
  have a: "scrape_attempts is_alnum (py ''u'') (py ''t'') (\<lambda>i. Fails) = 3"
    by code_simp
  have b: "navigate_with_retry (Some 2) 5 False (\<lambda>a. False) (\<lambda>a. 1) = (None, 3, [1, 2])"
    by (simp add: navigate_with_retry_def upt_conv_Cons)
  from retry_loops_bounded [of is_alnum "py ''u''" "py ''t''" "\<lambda>i. Fails"]
  have "scrape_attempts is_alnum (py ''u'') (py ''t'') (\<lambda>i. Fails) \<le> MAX_RETRIES"
    by blast
  with a b show ?thesis by blast
qed

subsection \<open>Reading the URL column\<close>







subsection \<open>Selector cascades\<close>












subsection \<open>The record a scrape returns\<close>









































subsection \<open>How a substitution walks through the text\<close>

lemma find_match_step:
  assumes "match_at r s pos adv = None" "pos \<le> length s"
  shows "find_match r s pos adv = find_match r s (Suc pos) False"
proof -
  from assms(2) have "[pos..<Suc (length s)] = pos # [Suc pos..<Suc (length s)]"
    by (simp add: upt_conv_Cons del: upt_Suc)
  with assms(1) show ?thesis by (simp add: find_match_def del: upt_Suc)
qed

lemma find_match_here:
  assumes "match_at r s pos adv = Some st" "pos \<le> length s"
  shows "find_match r s pos adv = Some (pos, st)"
proof -
  from assms(2) have "[pos..<Suc (length s)] = pos # [Suc pos..<Suc (length s)]"
    by (simp add: upt_conv_Cons del: upt_Suc)
  with assms(1) show ?thesis by (simp add: find_match_def del: upt_Suc)
qed

lemma find_match_beyond: "length s < pos \<Longrightarrow> find_match r s pos adv = None"
  by (simp add: find_match_def)

lemma sub_from_beyond: "length s \<le> pos \<Longrightarrow> match_at r s pos adv = None \<Longrightarrow> sub_from r repl s pos adv = []"
proof -
  assume a: "length s \<le> pos" "match_at r s pos adv = None"
  have "find_match r s pos adv = None"
  proof (cases "pos = length s")
    case True
    with a(2) find_match_step [of r s pos adv] find_match_beyond [of s "Suc pos" r False]
    show ?thesis by simp
  next
    case False
    with a(1) show ?thesis by (simp add: find_match_beyond)
  qed
  with a(1) show ?thesis by (simp add: sub_from.simps [of r repl s pos adv])
qed

lemma sub_from_match:
  assumes "match_at r s pos adv = Some st" "pos \<le> length s"
  shows "sub_from r repl s pos adv = repl @ sub_from r repl s (fst st) (fst st = pos)"
  using find_match_here [OF assms] by (simp add: sub_from.simps [of r repl s pos adv])

lemma sub_from_skip:
  assumes "match_at r s pos adv = None" "pos < length s"
  shows "sub_from r repl s pos adv = s ! pos # sub_from r repl s (Suc pos) False"
proof -
  from assms have fm: "find_match r s pos adv = find_match r s (Suc pos) False"
    by (simp add: find_match_step)
  show ?thesis
  proof (cases "find_match r s (Suc pos) False")
    case None
    with fm assms(2) show ?thesis
      by (simp add: sub_from.simps [of r repl s pos adv] sub_from.simps [of r repl s "Suc pos" False]
          Cons_nth_drop_Suc)
  next
    case (Some x)
    obtain k st where x: "x = (k, st)" by (cases x)
    from find_match_bounds [of r s "Suc pos" False k st] Some x have kb: "Suc pos \<le> k" by simp
    then have "k - pos = Suc (k - Suc pos)" by simp
    moreover from assms(2) have "drop pos s = s ! pos # drop (Suc pos) s"
      by (simp add: Cons_nth_drop_Suc)
    ultimately have "take (k - pos) (drop pos s) = s ! pos # take (k - Suc pos) (drop (Suc pos) s)"
      by simp
    with fm Some x show ?thesis
      by (simp add: sub_from.simps [of r repl s pos adv] sub_from.simps [of r repl s "Suc pos" False])
  qed
qed

text \<open>Where the pattern matches nowhere, nothing is replaced and nothing is found.\<close>

lemma sub_from_no_match:
  assumes "\<And>k. pos0 \<le> k \<Longrightarrow> match_at r s k False = None"
  shows "pos0 \<le> pos \<Longrightarrow> pos \<le> length s \<Longrightarrow> sub_from r repl s pos False = drop pos s"
proof (induction "length s - pos" arbitrary: pos)
  case 0
  then show ?case using assms by (simp add: sub_from_beyond)
next
  case (Suc n)
  then have lt: "pos < length s" by simp
  from Suc.prems(1) have "match_at r s pos False = None" by (rule assms)
  from sub_from_skip [OF this lt] Suc.hyps(1) [of "Suc pos"] Suc.hyps(2) Suc.prems(1) lt
  show ?case by (simp add: Cons_nth_drop_Suc)
qed

lemma match_at_None: "m r s (k, None) = [] \<Longrightarrow> match_at r s k adv = None"
  by (simp add: match_at_def)

lemma re_sub_no_match: "(\<And>st. m r s st = []) \<Longrightarrow> re_sub r repl s = s"
  using sub_from_no_match [of 0 r s 0 repl] by (simp add: re_sub_def match_at_None)

lemma scan_None: "(\<And>k. match_at r s k False = None) \<Longrightarrow> match_at r s (hd ks) adv = None \<Longrightarrow> scan r s adv ks = None"
proof (induction ks arbitrary: adv)
  case Nil
  then show ?case by simp
next
  case (Cons k ks)
  from Cons.IH [of False] Cons.prems show ?case by simp
qed

lemma re_search_no_match: "(\<And>st. m r s st = []) \<Longrightarrow> re_search r s = None"
  by (simp add: re_search_def find_match_def scan_None match_at_None del: upt_Suc)

lemma first_group_no_match: "(\<And>p st. p \<in> set ps \<Longrightarrow> m p s st = []) \<Longrightarrow> first_group ps s = None"
  by (induction ps) (simp_all add: re_search_no_match)

subsection \<open>Runs of one character class\<close>

text \<open>The length of the longest run of characters of a class that starts at a position.\<close>

definition run :: "(nat \<Rightarrow> bool) \<Rightarrow> pystr \<Rightarrow> nat \<Rightarrow> nat" where
  "run P s i = length (takeWhile P (drop i s))"

lemma run_le: "i + run P s i \<le> max i (length s)"
proof -
  have "run P s i \<le> length (drop i s)" unfolding run_def by (rule length_takeWhile_le)
  then show ?thesis by simp
qed

lemma run_Suc:
  assumes "i < length s" "P (s ! i)"
  shows "run P s i = Suc (run P s (Suc i))"
proof -
  from Cons_nth_drop_Suc [OF assms(1), symmetric] have d: "drop i s = s ! i # drop (Suc i) s" .
  have "takeWhile P (s ! i # drop (Suc i) s) = s ! i # takeWhile P (drop (Suc i) s)"
    using assms(2) by simp
  then show ?thesis unfolding run_def by (simp only: d length_Cons)
qed

lemma run_0:
  assumes "length s \<le> i \<or> \<not> P (s ! i)"
  shows "run P s i = 0"
proof (cases "i < length s")
  case True
  from Cons_nth_drop_Suc [OF True, symmetric] have d: "drop i s = s ! i # drop (Suc i) s" .
  from True assms have "\<not> P (s ! i)" by simp
  then have "takeWhile P (s ! i # drop (Suc i) s) = []" by simp
  then show ?thesis unfolding run_def by (simp only: d list.size)
next
  case False
  then show ?thesis by (simp add: run_def)
qed

lemma run_all:
  assumes "i \<le> j" "j < i + run P s i"
  shows "P (s ! j)"
proof -
  let ?xs = "drop i s"
  from assms have lt: "j - i < length (takeWhile P ?xs)" by (simp add: run_def)
  then have "takeWhile P ?xs ! (j - i) \<in> set (takeWhile P ?xs)" by (rule nth_mem)
  then have p: "P (takeWhile P ?xs ! (j - i))" by (rule set_takeWhileD [THEN conjunct2])
  from lt have e: "takeWhile P ?xs ! (j - i) = ?xs ! (j - i)" by (rule takeWhile_nth)
  from lt length_takeWhile_le [of P ?xs] have "j - i < length ?xs" by (rule less_le_trans)
  with assms(1) have "j < length s" by simp
  with assms(1) have "?xs ! (j - i) = s ! j" by simp
  with p e show ?thesis by simp
qed

lemma run_stop: "i + run P s i < length s \<Longrightarrow> \<not> P (s ! (i + run P s i))"
proof -
  assume a: "i + run P s i < length s"
  then have "run P s i < length (drop i s)" by simp
  from nth_length_takeWhile [of P "drop i s"] this
  have "\<not> P (drop i s ! run P s i)" by (simp add: run_def)
  with a show ?thesis by simp
qed

lemma star_class:
  "length s - i \<le> n \<Longrightarrow>
     star_iter True (m (Cls P) s) n (i, g) = map (\<lambda>j. (j, g)) (rev [i..<Suc (i + run P s i)])"
proof (induction n arbitrary: i)
  case 0
  then show ?case by (simp add: run_0)
next
  case (Suc n)
  show ?case
  proof (cases "i < length s \<and> P (s ! i)")
    case True
    then have r: "run P s i = Suc (run P s (Suc i))" by (simp add: run_Suc)
    from Suc.prems have "length s - Suc i \<le> n" by simp
    from Suc.IH [OF this]
    have ih: "star_iter True (m (Cls P) s) n (Suc i, g) =
        map (\<lambda>j. (j, g)) (rev [Suc i..<Suc (Suc i + run P s (Suc i))])" .
    have "[i..<Suc (i + Suc (run P s (Suc i)))] = i # [Suc i..<Suc (i + Suc (run P s (Suc i)))]"
      by (rule upt_conv_Cons) simp
    with r have u: "[i..<Suc (i + run P s i)] = i # [Suc i..<Suc (Suc i + run P s (Suc i))]"
      by simp
    from True have "star_iter True (m (Cls P) s) (Suc n) (i, g) =
        star_iter True (m (Cls P) s) n (Suc i, g) @ [(i, g)]"
      by simp
    with ih show ?thesis by (simp only: u rev.simps list.map map_append)
  next
    case False
    then have "run P s i = 0" by (auto simp: run_0)
    with False show ?thesis by auto
  qed
qed

lemma plus_class:
  "m (plus (Cls P)) s (i, g) = map (\<lambda>j. (j, g)) (rev [Suc i..<Suc (i + run P s i)])"
proof (cases "i < length s \<and> P (s ! i)")
  case True
  then have r: "run P s i = Suc (run P s (Suc i))" by (simp add: run_Suc)
  from star_class [of s "Suc i" "length s - Suc i" P g]
  have st: "star_iter True (m (Cls P) s) (length s - Suc i) (Suc i, g) =
      map (\<lambda>j. (j, g)) (rev [Suc i..<Suc (Suc i + run P s (Suc i))])"
    by simp
  from True have "m (plus (Cls P)) s (i, g) = star_iter True (m (Cls P) s) (length s - Suc i) (Suc i, g)"
    by (simp add: plus_def)
  with st r show ?thesis by simp
next
  case False
  then have "run P s i = 0" by (auto simp: run_0)
  with False show ?thesis by (auto simp: plus_def)
qed

lemma match_at_first:
  "m r s (k, None) = x # xs \<Longrightarrow> \<not> adv \<or> k < fst x \<Longrightarrow> match_at r s k adv = Some x"
  by (auto simp: match_at_def)

lemma rev_upt_Suc: "a \<le> b \<Longrightarrow> rev [a..<Suc b] = b # rev [a..<b]"
  by simp

subsection \<open>Leading and trailing symbols of an item\<close>

lemma m_leading:
  "m rx_leading s (k, None) =
     (if k = 0 then map (\<lambda>j. (j, None)) (rev [Suc 0..<Suc (run (\<lambda>c. \<not> is_alnum c) s 0)]) else [])"
  using plus_class [of "\<lambda>c. \<not> is_alnum c" s 0 None] by (simp add: rx_leading_def)

lemma match_at_leading_later: "0 < k \<Longrightarrow> match_at rx_leading s k adv = None"
  by (simp add: match_at_def m_leading)

lemma dropWhile_run: "dropWhile P s = drop (run P s 0) s"
  by (simp add: run_def dropWhile_eq_drop)

lemma re_sub_leading: "re_sub rx_leading [] s = dropWhile (\<lambda>c. \<not> is_alnum c) s"
proof (cases "run (\<lambda>c. \<not> is_alnum c) s 0")
  case 0
  then have "\<And>k. match_at rx_leading s k False = None"
    by (simp add: match_at_def m_leading)
  from sub_from_no_match [of 0 rx_leading s 0 "[]", OF this] 0 show ?thesis
    by (simp add: re_sub_def dropWhile_run)
next
  case (Suc n)
  let ?r = "run (\<lambda>c. \<not> is_alnum c) s 0"
  from Suc have "m rx_leading s (0, None) = (?r, None) # map (\<lambda>j. (j, None)) (rev [Suc 0..<?r])"
    by (simp add: m_leading)
  then have "match_at rx_leading s 0 False = Some (?r, None)"
    by (rule match_at_first) simp
  from sub_from_match [OF this] Suc
  have a: "sub_from rx_leading [] s 0 False = sub_from rx_leading [] s ?r False" by simp
  from run_le [of 0 "\<lambda>c. \<not> is_alnum c" s] have le: "?r \<le> length s" by simp
  have "sub_from rx_leading [] s ?r False = drop ?r s"
  proof (rule sub_from_no_match [where ?pos0.0 = "?r"])
    fix k assume "?r \<le> k"
    with Suc have "0 < k" by simp
    then show "match_at rx_leading s k False = None" by (rule match_at_leading_later)
  next
    show "?r \<le> ?r" by simp
  next
    show "?r \<le> length s" by (rule le)
  qed
  with a show ?thesis by (simp add: re_sub_def dropWhile_run)
qed

lemma run_full:
  assumes "k \<le> length s"
  shows "(k + run P s k = length s) = (\<forall>x\<in>set (drop k s). P x)"
proof
  assume "k + run P s k = length s"
  with assms have l: "length (takeWhile P (drop k s)) = length (drop k s)" by (simp add: run_def)
  have "length (takeWhile P (drop k s)) + length (dropWhile P (drop k s)) = length (drop k s)"
    using takeWhile_dropWhile_id [of P "drop k s"] by (metis length_append)
  with l have "dropWhile P (drop k s) = []" by simp
  then show "\<forall>x\<in>set (drop k s). P x" by (simp add: dropWhile_eq_Nil_conv)
next
  assume "\<forall>x\<in>set (drop k s). P x"
  then have "takeWhile P (drop k s) = drop k s" by (simp add: takeWhile_eq_all_conv)
  then have "run P s k = length (drop k s)" by (simp only: run_def)
  with assms show "k + run P s k = length s" by simp
qed

lemma eol_filter:
  "concat (map (m Eol s) (map (\<lambda>j. (j, g)) xs)) =
     map (\<lambda>j. (j, g)) (filter (\<lambda>j. j = length s \<or> (Suc j = length s \<and> s ! j = 10)) xs)"
  by (induction xs) auto

lemma m_trailing:
  "m rx_trailing s (k, None) =
     map (\<lambda>j. (j, None))
       (filter (\<lambda>j. j = length s \<or> (Suc j = length s \<and> s ! j = 10))
          (rev [Suc k..<Suc (k + run (\<lambda>c. \<not> is_alnum c) s k)]))"
  by (simp only: rx_trailing_def m.simps plus_class eol_filter)

lemma match_at_trailing:
  assumes "k \<le> length s"
  shows "match_at rx_trailing s k False =
     (if k < length s \<and> (\<forall>x\<in>set (drop k s). \<not> is_alnum x) then Some (length s, None) else None)"
proof (cases "k < length s \<and> (\<forall>x\<in>set (drop k s). \<not> is_alnum x)")
  case True
  with run_full [OF assms, of "\<lambda>c. \<not> is_alnum c"] have r: "k + run (\<lambda>c. \<not> is_alnum c) s k = length s"
    by simp
  from True have "Suc k \<le> length s" by simp
  then have "rev [Suc k..<Suc (length s)] = length s # rev [Suc k..<length s]"
    by (rule rev_upt_Suc)
  then have "m rx_trailing s (k, None) = (length s, None) #
      map (\<lambda>j. (j, None)) (filter (\<lambda>j. j = length s \<or> (Suc j = length s \<and> s ! j = 10)) (rev [Suc k..<length s]))"
    by (simp only: m_trailing r) simp
  then have "match_at rx_trailing s k False = Some (length s, None)"
    by (rule match_at_first) simp
  with True show ?thesis by simp
next
  case False
  let ?N = "\<lambda>c. \<not> is_alnum c"
  have "\<forall>j\<in>set (rev [Suc k..<Suc (k + run ?N s k)]). \<not> (j = length s \<or> (Suc j = length s \<and> s ! j = 10))"
  proof (intro ballI notI)
    fix j
    assume mem: "j \<in> set (rev [Suc k..<Suc (k + run ?N s k)])"
      and e: "j = length s \<or> (Suc j = length s \<and> s ! j = 10)"
    from mem have j: "Suc k \<le> j" "j \<le> k + run ?N s k" by auto
    from run_le [of k ?N s] assms have le: "k + run ?N s k \<le> length s" by (simp add: max_def)
    have full: "k + run ?N s k = length s"
    proof (cases "j = length s")
      case True
      with j le show ?thesis by simp
    next
      case False
      with e have sj: "Suc j = length s" "s ! j = 10" by simp_all
      show ?thesis
      proof (cases "j = k + run ?N s k")
        case True
        with sj have "k + run ?N s k < length s" by simp
        from run_stop [OF this] True sj show ?thesis by (simp add: is_alnum_def)
      next
        case False
        with j sj le show ?thesis by simp
      qed
    qed
    from j full have "k < length s" by simp
    moreover from full run_full [OF assms, of ?N] have "\<forall>x\<in>set (drop k s). \<not> is_alnum x" by simp
    ultimately show False using \<open>\<not> (k < length s \<and> (\<forall>x\<in>set (drop k s). \<not> is_alnum x))\<close> by simp
  qed
  then have "filter (\<lambda>j. j = length s \<or> (Suc j = length s \<and> s ! j = 10)) (rev [Suc k..<Suc (k + run ?N s k)]) = []"
    by (simp only: filter_False)
  then have "m rx_trailing s (k, None) = []" by (simp only: m_trailing list.map)
  with False show ?thesis by (simp add: match_at_def)
qed

text \<open>What is left of an item once its trailing symbols are gone.\<close>

fun trimr :: "pystr \<Rightarrow> pystr" where
  "trimr [] = []"
| "trimr (c # cs) = (if \<forall>x\<in>set (c # cs). \<not> is_alnum x then [] else c # trimr cs)"

lemma trimr_all: "\<forall>x\<in>set xs. \<not> is_alnum x \<Longrightarrow> trimr xs = []"
  by (cases xs) simp_all

lemma trimr_keep: "\<not> (\<forall>x\<in>set (c # cs). \<not> is_alnum x) \<Longrightarrow> trimr (c # cs) = c # trimr cs"
  by simp

lemma sub_from_trailing: "pos \<le> length s \<Longrightarrow> sub_from rx_trailing [] s pos False = trimr (drop pos s)"
proof (induction "length s - pos" arbitrary: pos)
  case 0
  then have "pos = length s" by simp
  with match_at_trailing [of pos s] show ?case by (simp add: sub_from_beyond)
next
  case (Suc n)
  then have lt: "pos < length s" by simp
  then have d: "drop pos s = s ! pos # drop (Suc pos) s" by (simp add: Cons_nth_drop_Suc)
  show ?case
  proof (cases "\<forall>x\<in>set (drop pos s). \<not> is_alnum x")
    case True
    with lt match_at_trailing [of pos s] have "match_at rx_trailing s pos False = Some (length s, None)"
      by simp
    from sub_from_match [OF this] lt
    have "sub_from rx_trailing [] s pos False = sub_from rx_trailing [] s (length s) False" by simp
    also have "\<dots> = []" using match_at_trailing [of "length s" s] by (simp add: sub_from_beyond)
    finally show ?thesis using trimr_all [OF True] by simp
  next
    case False
    with lt match_at_trailing [of pos s] have "match_at rx_trailing s pos False = None" by simp
    from sub_from_skip [OF this lt] Suc.hyps(1) [of "Suc pos"] Suc.hyps(2) lt
    have a: "sub_from rx_trailing [] s pos False = s ! pos # trimr (drop (Suc pos) s)" by simp
    from False have "\<not> (\<forall>x\<in>set (s ! pos # drop (Suc pos) s). \<not> is_alnum x)" unfolding d .
    from trimr_keep [OF this] have "trimr (drop pos s) = s ! pos # trimr (drop (Suc pos) s)"
      by (simp only: d)
    with a show ?thesis by simp
  qed
qed

lemma trimr_rev: "trimr s = rev (dropWhile (\<lambda>c. \<not> is_alnum c) (rev s))"
proof (induction s)
  case Nil
  then show ?case by simp
next
  case (Cons c cs)
  let ?N = "\<lambda>c. \<not> is_alnum c"
  show ?case
  proof (cases "\<forall>x\<in>set cs. \<not> is_alnum x")
    case True
    then have d1: "dropWhile ?N (rev cs @ [c]) = dropWhile ?N [c]"
      by (intro dropWhile_append2) simp
    from True have tr: "trimr cs = []" by (rule trimr_all)
    have "rev (dropWhile ?N (rev (c # cs))) = rev (dropWhile ?N [c])"
      by (simp only: rev.simps d1)
    also have "\<dots> = (if is_alnum c then [c] else [])" by simp
    also have "\<dots> = trimr (c # cs)" using True tr by simp
    finally show ?thesis by (rule sym)
  next
    case False
    then obtain x where "x \<in> set (rev cs)" "\<not> ?N x" by auto
    then have d2: "dropWhile ?N (rev cs @ [c]) = dropWhile ?N (rev cs) @ [c]"
      by (rule dropWhile_append1)
    have "rev (dropWhile ?N (rev (c # cs))) = c # rev (dropWhile ?N (rev cs))"
      by (simp only: rev.simps d2) simp
    also have "\<dots> = c # trimr cs" by (simp only: Cons.IH)
    also have "\<dots> = trimr (c # cs)" using False by simp
    finally show ?thesis by (rule sym)
  qed
qed

lemma re_sub_trailing: "re_sub rx_trailing [] s = rev (dropWhile (\<lambda>c. \<not> is_alnum c) (rev s))"
  using sub_from_trailing [of 0 s] by (simp add: re_sub_def trimr_rev)

lemma clean_item_eq:
  "clean_item item =
     rev (dropWhile (\<lambda>c. \<not> is_alnum c) (rev (dropWhile (\<lambda>c. \<not> is_alnum c) (strip item))))"
  by (simp only: clean_item_def re_sub_leading re_sub_trailing)

lemma set_strip: "set (strip s) \<subseteq> set s"
proof -
  have "set (dropWhile is_space (rev (dropWhile is_space s))) \<subseteq> set (rev (dropWhile is_space s))"
    by (auto dest: set_dropWhileD)
  also have "\<dots> \<subseteq> set s" by (auto dest: set_dropWhileD)
  finally show ?thesis by (simp add: strip_def)
qed

lemma set_clean_item: "set (clean_item item) \<subseteq> set item"
proof -
  let ?N = "\<lambda>c. \<not> is_alnum c"
  have "set (clean_item item) \<subseteq> set (dropWhile ?N (strip item))"
    unfolding clean_item_eq by (auto dest: set_dropWhileD)
  also have "\<dots> \<subseteq> set (strip item)" by (auto dest: set_dropWhileD)
  also have "\<dots> \<subseteq> set item" by (rule set_strip)
  finally show ?thesis .
qed

lemma trim_both_ends:
  assumes "z = rev (dropWhile P (rev (dropWhile P x)))" "z \<noteq> []"
  shows "\<not> P (hd z) \<and> \<not> P (last z)"
proof -
  let ?y = "dropWhile P x"
  from assms have ne: "dropWhile P (rev ?y) \<noteq> []" by simp
  then have l: "\<not> P (hd (dropWhile P (rev ?y)))" by (rule hd_dropWhile)
  from assms ne have "last z = hd (dropWhile P (rev ?y))" by (simp add: last_rev)
  with l have last: "\<not> P (last z)" by simp
  have "rev ?y = takeWhile P (rev ?y) @ dropWhile P (rev ?y)" by simp
  then have "rev (rev ?y) = rev (takeWhile P (rev ?y) @ dropWhile P (rev ?y))" by (rule arg_cong)
  then have y: "?y = z @ rev (takeWhile P (rev ?y))" using assms(1) by (simp only: rev_rev_ident rev_append)
  have "?y \<noteq> []"
  proof
    assume e: "?y = []"
    from y have "z @ rev (takeWhile P (rev ?y)) = ?y" by (rule sym)
    then have "z @ rev (takeWhile P (rev ?y)) = []" using e by (rule trans)
    then have "z = []" by (simp only: append_is_Nil_conv)
    with assms(2) show False by simp
  qed
  then have "\<not> P (hd ?y)" by (rule hd_dropWhile)
  moreover from y assms(2) have "hd ?y = hd z" by (metis hd_append2)
  ultimately show ?thesis using last by simp
qed

lemma clean_item_ends:
  "clean_item item \<noteq> [] \<Longrightarrow> is_alnum (hd (clean_item item)) \<and> is_alnum (last (clean_item item))"
  using trim_both_ends [of "clean_item item" "\<lambda>c. \<not> is_alnum c" "strip item"]
  by (simp add: clean_item_eq [symmetric])

lemma split_on_nonempty: "split_on c s \<noteq> []"
  by (induction s) (auto split: list.splits)

lemma split_on_free: "w \<in> set (split_on c s) \<Longrightarrow> c \<notin> set w"
proof (induction s arbitrary: w)
  case Nil
  then show ?case by simp
next
  case (Cons x xs)
  show ?case
  proof (cases "x = c")
    case True
    with Cons show ?thesis by auto
  next
    case False
    obtain v vs where sp: "split_on c xs = v # vs"
      using split_on_nonempty [of c xs] by (cases "split_on c xs") auto
    with False Cons.prems have "w = x # v \<or> w \<in> set vs" by simp
    with Cons.IH [of v] Cons.IH [of w] sp False show ?thesis by auto
  qed
qed

text \<open>What the claim calls a normalized, comma-free ingredient name.\<close>

definition normalized_name :: "pystr \<Rightarrow> bool" where
  "normalized_name x = (44 \<notin> set x \<and> 2 \<le> length x \<and> is_alnum (hd x) \<and> is_alnum (last x))"

lemma split_items_normalized: "x \<in> set (split_items t) \<Longrightarrow> normalized_name x"
proof -
  assume "x \<in> set (split_items t)"
  then obtain item where item: "item \<in> set (split_on 44 t)" and x: "x = clean_item item"
    and ne: "x \<noteq> []" and len: "1 < length x"
    by (auto simp: split_items_def)
  from split_on_free [OF item] set_clean_item [of item] x have "44 \<notin> set x" by auto
  moreover from clean_item_ends [of item] x ne have "is_alnum (hd x) \<and> is_alnum (last x)" by simp
  ultimately show ?thesis using len by (simp add: normalized_name_def)
qed

text \<open>
  C7: every element of the list that \<open>extract_ingredients_list\<close> returns, for any text,
  has no comma, has at least two characters and begins and ends with a character of
  \<open>[a-zA-Z0-9]\<close>; so has every element of the list of \<open>extract_and_clean_ingredients\<close>.
\<close>

theorem ingredients_list_normalized:
  "(\<forall>x\<in>set (extract_ingredients_list t). normalized_name x) \<and>
   (\<forall>x\<in>set (snd (extract_and_clean_ingredients u v)). normalized_name x)"
proof
  show "\<forall>x\<in>set (extract_ingredients_list t). normalized_name x"
    by (simp add: extract_ingredients_list_def split_items_normalized)
next
  show "\<forall>x\<in>set (snd (extract_and_clean_ingredients u v)). normalized_name x"
    by (cases v) (simp_all add: extract_and_clean_ingredients_def Let_def split_items_normalized)
qed

theorem ingredients_list_normalized_witness:
  "extract_ingredients_list (py ''--Aqua!!, (Parfum), *, C, CI 77891'')
     = [py ''Aqua'', py ''Parfum'', py ''CI 77891''] \<and>
   normalized_name (py ''Aqua'') \<and> normalized_name (py ''Parfum'') \<and> normalized_name (py ''CI 77891'')"
proof -
  have e: "extract_ingredients_list (py ''--Aqua!!, (Parfum), *, C, CI 77891'')
     = [py ''Aqua'', py ''Parfum'', py ''CI 77891'']"
    by code_simp
  from ingredients_list_normalized [of "py ''--Aqua!!, (Parfum), *, C, CI 77891''" is_alnum PNone]
  have "\<forall>x\<in>set (extract_ingredients_list (py ''--Aqua!!, (Parfum), *, C, CI 77891'')). normalized_name x"
    by (rule conjunct1)
  with e show ?thesis by simp
qed

subsection \<open>Patterns that need a character the text does not have\<close>

text \<open>Every match of the pattern consumes a character of the class \<open>Q\<close>.\<close>

fun needs :: "(nat \<Rightarrow> bool) \<Rightarrow> rx \<Rightarrow> bool" where
  "needs Q (Cls P) = (\<forall>c. P c \<longrightarrow> Q c)"
| "needs Q (Seq a b) = (needs Q a \<or> needs Q b)"
| "needs Q (Alt a b) = (needs Q a \<and> needs Q b)"
| "needs Q (Grp a) = needs Q a"
| "needs Q r = False"

lemma needs_no_match: "needs Q r \<Longrightarrow> \<forall>c\<in>set s. \<not> Q c \<Longrightarrow> m r s st = []"
proof (induction r arbitrary: st)
  case (Cls P)
  then show ?case by (auto simp: all_set_conv_all_nth)
next
  case (Seq a b)
  show ?case
  proof (cases "needs Q a")
    case True
    from Seq.IH(1) [OF True Seq.prems(2)] have "m a s st = []" .
    then show ?thesis by simp
  next
    case False
    with Seq.prems(1) have "needs Q b" by simp
    from Seq.IH(2) [OF this Seq.prems(2)] have "\<And>st'. m b s st' = []" .
    then show ?thesis by simp
  qed
qed auto




subsection \<open>Splitting a joined list\<close>














subsection \<open>Missing and blank ingredients text\<close>

lemma strip_empty: "(strip s = []) = (\<forall>c\<in>set s. is_space c)"
proof
  assume "strip s = []"
  then have "rev (dropWhile is_space (rev (dropWhile is_space s))) = []" unfolding strip_def .
  then have "dropWhile is_space (rev (dropWhile is_space s)) = []" by (simp only: rev_is_Nil_conv)
  then have "\<forall>x\<in>set (rev (dropWhile is_space s)). is_space x"
    by (simp only: dropWhile_eq_Nil_conv)
  then have all: "\<forall>x\<in>set (dropWhile is_space s). is_space x" by (simp only: set_rev)
  have "dropWhile is_space s = []"
  proof (rule ccontr)
    assume ne: "dropWhile is_space s \<noteq> []"
    then have "\<not> is_space (hd (dropWhile is_space s))" by (rule hd_dropWhile)
    moreover from ne have "hd (dropWhile is_space s) \<in> set (dropWhile is_space s)" by (rule hd_in_set)
    ultimately show False using all by blast
  qed
  then show "\<forall>c\<in>set s. is_space c" by (simp only: dropWhile_eq_Nil_conv)
next
  assume "\<forall>c\<in>set s. is_space c"
  then have e: "dropWhile is_space s = []" by (simp only: dropWhile_eq_Nil_conv)
  show "strip s = []" by (simp only: strip_def e rev.simps dropWhile.simps)
qed

lemma ci_range:
  assumes "65 \<le> p" "p \<le> 122" "ci p c"
  shows "(33 \<le> c \<and> c \<le> 122) \<or> c = 304 \<or> c = 305 \<or> c = 383 \<or> c = 8490 \<or> c = 201"
proof -
  from assms(3) consider "c = p" | "97 \<le> p \<and> p \<le> 122 \<and> c + 32 = p" | "65 \<le> p \<and> p \<le> 90 \<and> c = p + 32"
    | "c = 304 \<or> c = 305" | "c = 383" | "c = 8490" | "c = 201"
    unfolding ci_def by blast
  then show ?thesis
  proof cases
    case 1
    with assms(1,2) show ?thesis by simp
  next
    case 2
    then show ?thesis by arith
  next
    case 3
    then show ?thesis by arith
  qed blast+
qed

lemma ci_not_space:
  assumes "65 \<le> p" "p \<le> 122" "ci p c"
  shows "\<not> is_space c"
proof -
  from ci_range [OF assms]
  consider "33 \<le> c \<and> c \<le> 122" | "c = 304" | "c = 305" | "c = 383" | "c = 8490" | "c = 201"
    by blast
  then show ?thesis by cases (simp_all add: is_space_def)
qed

lemma needs_ci: "65 \<le> p \<Longrightarrow> p \<le> 122 \<Longrightarrow> needs (\<lambda>c. \<not> is_space c) (Cls (ci p))"
  using ci_not_space by simp

lemma needs_seqs_hd: "needs Q r \<Longrightarrow> needs Q (seqs (r # rs))"
  by (simp add: seqs_def)

lemma needs_lit_ci: "65 \<le> p \<Longrightarrow> p \<le> 122 \<Longrightarrow> needs (\<lambda>c. \<not> is_space c) (lit_ci (p # w))"
  using needs_ci [of p] by (simp add: lit_ci_def seqs_def)

lemma letters_not_space:
  "\<not> is_space 73" "\<not> is_space 65" "\<not> is_space 105" "\<not> is_space 58" "\<not> is_space 42"
  "\<not> is_space 43" "\<not> is_space 46" "\<not> is_space 60"
  by (simp_all add: is_space_def)

lemma digit_not_space: "is_digit c \<Longrightarrow> \<not> is_space c"
  by (auto simp: is_digit_def is_space_def)

lemma py_heads:
  "py ''INGREDIENTS'' = 73 # py ''NGREDIENTS''" "py ''ACTIVE'' = 65 # py ''CTIVE''"
  "py ''Active'' = 65 # py ''ctive''" "py ''ingredients:'' = 105 # py ''ngredients:''"
  "py ''ingredients'' = 105 # py ''ngredients''" "py ''ingr'' = 105 # py ''ngr''"
  by (simp_all add: py_def)

lemma needs_pattern1: "needs (\<lambda>c. \<not> is_space c) pattern1"
  unfolding pattern1_def
  by (rule needs_seqs_hd) (simp add: py_heads needs_lit_ci letters_not_space)

lemma needs_pattern2: "needs (\<lambda>c. \<not> is_space c) pattern2"
  unfolding pattern2_def
  by (rule needs_seqs_hd) (simp add: digit_not_space)

lemma needs_pattern3: "needs (\<lambda>c. \<not> is_space c) (pattern3 u)"
  unfolding pattern3_def
  by (rule needs_seqs_hd) (simp add: py_heads needs_lit_ci letters_not_space)

lemma needs_ch: "\<not> is_space p \<Longrightarrow> needs (\<lambda>c. \<not> is_space c) (ch p)"
  by (simp add: ch_def)

lemma needs_tag: "needs (\<lambda>c. \<not> is_space c) rx_html_tag"
  unfolding rx_html_tag_def
  by (rule needs_seqs_hd) (simp add: needs_ch letters_not_space)

lemma needs_seqs_snd: "needs Q r \<Longrightarrow> needs Q (seqs (a # r # rs))"
  by (simp add: seqs_def)

lemma needs_noise: "needs (\<lambda>c. \<not> is_space c) (rx_noise u)"
proof -
  have l1: "needs (\<lambda>c. \<not> is_space c) (lit_ci (py ''ingredients:''))"
    by (simp add: py_heads needs_lit_ci letters_not_space)
  have l2: "needs (\<lambda>c. \<not> is_space c) (seqs [Bnd (word_char u), lit_ci ingredients_fr])"
    by (rule needs_seqs_snd) (simp add: ingredients_fr_def py_heads needs_lit_ci letters_not_space)
  have l3: "needs (\<lambda>c. \<not> is_space c) (seqs [Bnd (word_char u), lit_ci (py ''ingredients''), Bnd (word_char u)])"
    by (rule needs_seqs_snd) (simp add: py_heads needs_lit_ci letters_not_space)
  have l4: "needs (\<lambda>c. \<not> is_space c) (seqs [Bnd (word_char u), lit_ci (py ''INGREDIENTS''), Bnd (word_char u)])"
    by (rule needs_seqs_snd) (simp add: py_heads needs_lit_ci letters_not_space)
  have c: "needs (\<lambda>c. \<not> is_space c) (ch 58)" "needs (\<lambda>c. \<not> is_space c) (ch 42)"
    "needs (\<lambda>c. \<not> is_space c) (ch 43)" "needs (\<lambda>c. \<not> is_space c) (ch 46)"
    by (simp_all add: needs_ch letters_not_space)
  from l1 l2 l3 l4 c show ?thesis
    by (simp add: rx_noise_def rx_noise_scraper_def)
qed

lemma re_sub_whitespace_blank:
  assumes "\<forall>c\<in>set s. is_space c"
  shows "re_sub rx_whitespace (py '' '') s = (if s = [] then [] else py '' '')"
proof (cases "s = []")
  case True
  have "match_at rx_whitespace [] 0 False = None"
    by (simp add: match_at_def rx_whitespace_def spaces1_def plus_class run_def)
  then have "sub_from rx_whitespace (py '' '') [] 0 False = []" by (intro sub_from_beyond) simp_all
  with True show ?thesis by (simp add: re_sub_def)
next
  case False
  then have pos: "0 < length s" by simp
  from assms run_full [of 0 s is_space] have r: "run is_space s 0 = length s" by simp
  from False have "Suc 0 \<le> length s" by (cases s) simp_all
  then have "rev [Suc 0..<Suc (length s)] = length s # rev [Suc 0..<length s]"
    by (rule rev_upt_Suc)
  then have "m rx_whitespace s (0, None) = (length s, None) # map (\<lambda>j. (j, None)) (rev [Suc 0..<length s])"
    by (simp add: rx_whitespace_def spaces1_def plus_class r del: upt_Suc)
  then have "match_at rx_whitespace s 0 False = Some (length s, None)"
    by (rule match_at_first) simp
  from sub_from_match [OF this] pos
  have a: "sub_from rx_whitespace (py '' '') s 0 False =
      py '' '' @ sub_from rx_whitespace (py '' '') s (length s) False" by simp
  have "match_at rx_whitespace s (length s) False = None"
    by (simp add: match_at_def rx_whitespace_def spaces1_def plus_class run_0)
  then have "sub_from rx_whitespace (py '' '') s (length s) False = []"
    by (intro sub_from_beyond) simp_all
  with a False show ?thesis by (simp add: re_sub_def)
qed

lemma scrub_blank:
  assumes "\<forall>c\<in>set s. is_space c"
  shows "strip (scrub u s) = []"
proof -
  from assms have q: "\<forall>c\<in>set s. \<not> \<not> is_space c" by simp
  have "\<And>st. m rx_html_tag s st = []" by (rule needs_no_match [OF needs_tag q])
  then have a: "re_sub rx_html_tag [] s = s" by (rule re_sub_no_match)
  let ?w = "if s = [] then [] else py '' ''"
  have w: "\<forall>c\<in>set ?w. \<not> \<not> is_space c" by (simp add: py_def is_space_def)
  have "\<And>st. m (rx_noise u) ?w st = []" by (rule needs_no_match [OF needs_noise w])
  then have "re_sub (rx_noise u) [] ?w = ?w" by (rule re_sub_no_match)
  with a re_sub_whitespace_blank [OF assms] have "scrub u s = ?w" by (simp add: scrub_def)
  moreover have "strip ?w = []" by (simp add: strip_empty py_def is_space_def)
  ultimately show ?thesis by simp
qed

lemma clean_blank: "missing_text v \<Longrightarrow> clean_ingredients_text u v = []"
proof (cases v)
  case (PStr s)
  assume "missing_text v"
  with PStr have sp: "\<forall>c\<in>set s. is_space c" by (simp add: missing_text_def strip_empty)
  then have q: "\<forall>c\<in>set s. \<not> \<not> is_space c" by simp
  have "first_group [pattern1, pattern2, pattern3 u] s = None"
  proof (rule first_group_no_match)
    fix p st
    assume "p \<in> set [pattern1, pattern2, pattern3 u]"
    then have "needs (\<lambda>c. \<not> is_space c) p"
      using needs_pattern1 needs_pattern2 needs_pattern3 by auto
    from needs_no_match [OF this q] show "m p s st = []" .
  qed
  with PStr scrub_blank [OF sp] show ?thesis by (simp add: clean_ingredients_text_def)
qed (simp_all add: clean_ingredients_text_def)

lemma extract_and_clean_blank: "missing_text v \<Longrightarrow> extract_and_clean_ingredients u v = ([], [])"
  by (cases v) (simp_all add: extract_and_clean_ingredients_def missing_text_def)

text \<open>
  C3: where the ingredients value is \<open>None\<close> (an absent field), not a string, or a
  string of white space only, \<open>clean_ingredients_text\<close> returns the empty string,
  \<open>extract_and_clean_ingredients\<close> returns the empty string and the empty list, and
  \<open>process_batch\<close> appends the record of such a row as it is; none of the three has a
  branch that raises.
\<close>

theorem missing_ingredients_harmless:
  "missing_text v \<longrightarrow>
     clean_ingredients_text u v = [] \<and>
     extract_and_clean_ingredients u v = ([], []) \<and>
     (\<forall>rows i. i < length rows \<and> dict_get (rows ! i) ''ingredients'' = v \<longrightarrow>
        fst (process_batch u rows) ! i = rows ! i)"
proof
  assume mv: "missing_text v"
  have "\<forall>rows i. i < length rows \<and> dict_get (rows ! i) ''ingredients'' = v \<longrightarrow>
        fst (process_batch u rows) ! i = rows ! i"
  proof (intro allI impI, elim conjE)
    fix rows :: "pydict list" and i
    assume i: "i < length rows" and g: "dict_get (rows ! i) ''ingredients'' = v"
    from g mv have "fst (process_row u (rows ! i)) = rows ! i"
      by (simp add: process_row_def)
    with i show "fst (process_batch u rows) ! i = rows ! i" by (simp add: process_batch_rows)
  qed
  with mv show "clean_ingredients_text u v = [] \<and>
     extract_and_clean_ingredients u v = ([], []) \<and>
     (\<forall>rows i. i < length rows \<and> dict_get (rows ! i) ''ingredients'' = v \<longrightarrow>
        fst (process_batch u rows) ! i = rows ! i)"
    by (simp add: clean_blank extract_and_clean_blank)
qed

theorem missing_ingredients_harmless_witness:
  "missing_text (PStr (py '' '')) \<and> clean_ingredients_text is_alnum (PStr (py '' '')) = [] \<and>
   missing_text PNaN \<and> extract_and_clean_ingredients is_alnum PNaN = ([], []) \<and>
   missing_text (dict_get [''product_name'' \<mapsto> PStr (py ''Soap'')] ''ingredients'') \<and>
   fst (process_batch is_alnum [[''product_name'' \<mapsto> PStr (py ''Soap'')]]) ! 0
     = [''product_name'' \<mapsto> PStr (py ''Soap'')]"
proof -
  have m1: "missing_text (PStr (py '' ''))" by code_simp
  have m2: "missing_text PNaN" by (simp add: missing_text_def)
  have m3: "missing_text (dict_get [''product_name'' \<mapsto> PStr (py ''Soap'')] ''ingredients'')"
    by (simp add: missing_text_def dict_get_def)
  from missing_ingredients_harmless [of "PStr (py '' '')" is_alnum] m1
  have a: "clean_ingredients_text is_alnum (PStr (py '' '')) = []" by blast
  from missing_ingredients_harmless [of PNaN is_alnum] m2
  have b: "extract_and_clean_ingredients is_alnum PNaN = ([], [])" by blast
  let ?row = "[''product_name'' \<mapsto> PStr (py ''Soap'')]"
  from missing_ingredients_harmless [of "dict_get ?row ''ingredients''" is_alnum] m3
  have "\<forall>rows i. i < length rows \<and> dict_get (rows ! i) ''ingredients'' = dict_get ?row ''ingredients'' \<longrightarrow>
        fst (process_batch is_alnum rows) ! i = rows ! i" by blast
  then have "0 < length [?row] \<and> dict_get ([?row] ! 0) ''ingredients'' = dict_get ?row ''ingredients'' \<longrightarrow>
        fst (process_batch is_alnum [?row]) ! 0 = [?row] ! 0" by blast
  then have c: "fst (process_batch is_alnum [?row]) ! 0 = ?row" by simp
  from m1 a m2 b m3 c show ?thesis by blast
qed

end
